theory Spec2Isabelle
  imports Complex_Main "HOL-Library.Multiset"
begin

section \<open>Weighted DCG calculator (src/metric/weighted\_dcg\_calculator.cpp)\<close>

text \<open>
  Conventions of the embedding.
  \<^item> \<open>double\<close> and \<open>label_t\<close> values are real numbers: rounding, infinities and
    NaN are outside the model. Converting such a value to an integer type
    (\<open>static_cast<int>\<close>, \<open>static_cast<size_t>\<close>, the implicit conversion at a call of
    \<open>CalGain\<close>) truncates towards zero.
  \<^item> \<open>data_size_t\<close> (a 32-bit signed integer) is \<open>int\<close>. The loop counters are only
    incremented below a bound of the same type, so that arithmetic stays in the 32-bit
    range. The two expressions that can leave it are modelled with their width: the
    difference of two query boundaries in \<open>CheckMetadata\<close> wraps around, and
    \<open>(1 << l) - 1\<close> in \<open>CalGain\<close> has its range check.
  \<^item> A raw array is the list of the entries that exist; reading or writing at any other
    index, an undefined shift, a failed allocation and \<open>Log::Fatal\<close> are results
    \<open>Inl e\<close> that end the call.
  \<^item> The static members \<open>label_gain_\<close> and \<open>discount_\<close> are the fields
    \<open>static_label_gain\<close> and \<open>static_discount\<close> of a record that is passed to every
    function reading them (a field name cannot end in an underscore).
\<close>

datatype error = Out_Of_Range | Shift_Overflow | Bad_Alloc | Fatal

record calculator =
  static_label_gain :: "real list"
  static_discount :: "real list"

record metadata =
  query_boundaries :: "int list option"

definition kMaxPosition :: int where
  "kMaxPosition = 10000"

text \<open>\<open>xs[i]\<close> on a raw array or a vector with \<open>length xs\<close> entries.\<close>

definition rd :: "'a list \<Rightarrow> int \<Rightarrow> error + 'a" where
  "rd xs i = (if 0 \<le> i \<and> i < int (length xs) then Inr (xs ! nat i) else Inl Out_Of_Range)"

text \<open>Conversion of a floating-point value to an integer type: the fraction is dropped.\<close>

definition to_int :: "real \<Rightarrow> int" where
  "to_int x = (if 0 \<le> x then \<lfloor>x\<rfloor> else \<lceil>x\<rceil>)"

text \<open>
  \<open>a << l\<close> on a 32-bit \<open>int\<close> with \<open>a\<close> non-negative: defined when the shift count is in
  \<open>[0, 32)\<close> and the result fits the type.
\<close>

definition shl_int32 :: "int \<Rightarrow> int \<Rightarrow> error + int" where
  "shl_int32 a l =
     (if l < 0 \<or> 32 \<le> l \<or> a < 0 \<or> 2 ^ 31 \<le> push_bit (nat l) a then Inl Shift_Overflow
      else Inr (push_bit (nat l) a))"

definition CalGain :: "int \<Rightarrow> real \<Rightarrow> real \<Rightarrow> error + real" where
  "CalGain l th1 th2 =
     (if l = 0 then Inr 0
      else if l = 1 then Inr (1 / th1)
      else if l = 2 then Inr (2 / (th1 * th2) + 1 / th1)
      else (case shl_int32 1 l of
              Inl e \<Rightarrow> Inl e
            | Inr x \<Rightarrow> Inr (real_of_int (x - 1))))"

text \<open>\<open>std::vector::resize\<close>: truncate, or pad with zeros.\<close>

definition resize :: "real list \<Rightarrow> nat \<Rightarrow> real list" where
  "resize xs n = take n xs @ replicate (n - length xs) 0"

text \<open>The two loops of \<open>Init\<close>; both write inside the vector just resized.\<close>

function fill_label_gain :: "real list \<Rightarrow> nat \<Rightarrow> real list \<Rightarrow> real list" where
  "fill_label_gain input i lg =
     (if i < length input then fill_label_gain input (i + 1) (lg[i := input ! i]) else lg)"
  by pat_completeness auto
termination
  by (relation "measure (\<lambda>(input, i, lg). length input - i)") auto

function fill_discount :: "int \<Rightarrow> real list \<Rightarrow> real list" where
  "fill_discount i d =
     (if i < kMaxPosition
      then fill_discount (i + 1) (d[nat i := 1 / log 2 (2 + real_of_int i)])
      else d)"
  by pat_completeness auto
termination
  by (relation "measure (\<lambda>(i, d). nat (kMaxPosition - i))") auto

definition Init :: "real list \<Rightarrow> calculator \<Rightarrow> calculator" where
  "Init input_label_gain st =
     st\<lparr>static_label_gain :=
          fill_label_gain input_label_gain 0
            (resize (static_label_gain st) (length input_label_gain)),
        static_discount := fill_discount 0 (resize (static_discount st) (nat kMaxPosition))\<rparr>"

text \<open>
  \<open>for (j = ...; j < n; ++j) gains[j] = CalGain(label[j], theta1[j], theta2[j])\<close>,
  shared by \<open>CalMaxDCGAtK\<close> (with \<open>n = k\<close>) and \<open>CalMaxDCG\<close> (with \<open>n = num_data\<close>).
\<close>

function fill_gains ::
  "real list \<Rightarrow> real list \<Rightarrow> real list \<Rightarrow> int \<Rightarrow> int \<Rightarrow> real list \<Rightarrow> error + real list" where
  "fill_gains label theta1 theta2 j n gains =
     (if j < n then
        (case rd label j of Inl e \<Rightarrow> Inl e | Inr l \<Rightarrow>
        (case rd theta1 j of Inl e \<Rightarrow> Inl e | Inr t1 \<Rightarrow>
        (case rd theta2 j of Inl e \<Rightarrow> Inl e | Inr t2 \<Rightarrow>
        (case CalGain (to_int l) t1 t2 of Inl e \<Rightarrow> Inl e | Inr g \<Rightarrow>
           fill_gains label theta1 theta2 (j + 1) n (gains[nat j := g])))))
      else Inr gains)"
  by pat_completeness auto
termination
  by (relation "measure (\<lambda>(label, theta1, theta2, j, n, gains). nat (n - j))") auto

text \<open>\<open>for (j = cur_left; j < cur_k; ++j) cur_result += discount_[j] * gains[j]\<close>.\<close>

function acc_gains :: "real list \<Rightarrow> real list \<Rightarrow> int \<Rightarrow> int \<Rightarrow> real \<Rightarrow> error + real" where
  "acc_gains discount gains j k ret =
     (if j < k then
        (case rd discount j of Inl e \<Rightarrow> Inl e | Inr d \<Rightarrow>
        (case rd gains j of Inl e \<Rightarrow> Inl e | Inr g \<Rightarrow>
           acc_gains discount gains (j + 1) k (ret + d * g)))
      else Inr ret)"
  by pat_completeness auto
termination
  by (relation "measure (\<lambda>(discount, gains, j, k, ret). nat (k - j))") auto

text \<open>
  The inner loop of \<open>CalDCG\<close>:
  \<open>idx = sorted_idx[j]; cur_result += CalGain((int)label[idx], theta1[idx], theta2[idx]) * discount_[j]\<close>.
\<close>

function acc_dcg ::
  "real list \<Rightarrow> real list \<Rightarrow> real list \<Rightarrow> real list \<Rightarrow> int list \<Rightarrow> int \<Rightarrow> int \<Rightarrow> real
     \<Rightarrow> error + real" where
  "acc_dcg discount label theta1 theta2 sorted_idx j k ret =
     (if j < k then
        (case rd sorted_idx j of Inl e \<Rightarrow> Inl e | Inr idx \<Rightarrow>
        (case rd label idx of Inl e \<Rightarrow> Inl e | Inr l \<Rightarrow>
        (case rd theta1 idx of Inl e \<Rightarrow> Inl e | Inr t1 \<Rightarrow>
        (case rd theta2 idx of Inl e \<Rightarrow> Inl e | Inr t2 \<Rightarrow>
        (case CalGain (to_int l) t1 t2 of Inl e \<Rightarrow> Inl e | Inr g \<Rightarrow>
        (case rd discount j of Inl e \<Rightarrow> Inl e | Inr d \<Rightarrow>
           acc_dcg discount label theta1 theta2 sorted_idx (j + 1) k (ret + g * d)))))))
      else Inr ret)"
  by pat_completeness auto
termination
  by (relation "measure (\<lambda>(discount, label, theta1, theta2, sorted_idx, j, k, ret). nat (k - j))")
    auto

text \<open>
  The one pass over the cutoffs that \<open>CalMaxDCG\<close> and \<open>CalDCG\<close> both make:
  \<open>cur_k = ks[i]\<close>, clamped to \<open>num_data\<close>; the inner loop \<open>inner cur_left cur_k\<close> adds to
  \<open>cur_result\<close>; \<open>(*out)[i] = cur_result; cur_left = cur_k\<close>.
\<close>

function cutoff_pass ::
  "(int \<Rightarrow> int \<Rightarrow> real \<Rightarrow> error + real) \<Rightarrow> int list \<Rightarrow> int \<Rightarrow> nat \<Rightarrow> real \<Rightarrow> int \<Rightarrow> real list
     \<Rightarrow> error + real list" where
  "cutoff_pass inner ks num_data i cur_result cur_left out =
     (if i < length ks then
        (let cur_k = (if ks ! i > num_data then num_data else ks ! i) in
         (case inner cur_left cur_k cur_result of Inl e \<Rightarrow> Inl e | Inr r \<Rightarrow>
            if i < length out
            then cutoff_pass inner ks num_data (i + 1) r cur_k (out[i := r])
            else Inl Out_Of_Range))
      else Inr out)"
  by pat_completeness auto
termination
  by (relation "measure (\<lambda>(inner, ks, num_data, i, cur_result, cur_left, out). length ks - i)")
    auto

definition CalMaxDCGAtK ::
  "calculator \<Rightarrow> int \<Rightarrow> real list \<Rightarrow> real list \<Rightarrow> real list \<Rightarrow> int \<Rightarrow> error + real" where
  "CalMaxDCGAtK st k label theta1 theta2 num_data =
     (if k < 0 then Inl Bad_Alloc
      else (case fill_gains label theta1 theta2 0 k (replicate (nat k) 0) of
              Inl e \<Rightarrow> Inl e
            | Inr gains \<Rightarrow>
                acc_gains (static_discount st) (rev (sort gains)) 0
                  (if k > num_data then num_data else k) 0))"

definition CalMaxDCG ::
  "calculator \<Rightarrow> int list \<Rightarrow> real list \<Rightarrow> real list \<Rightarrow> real list \<Rightarrow> int \<Rightarrow> real list
     \<Rightarrow> error + real list" where
  "CalMaxDCG st ks label theta1 theta2 num_data out =
     (if num_data < 0 then Inl Bad_Alloc
      else (case fill_gains label theta1 theta2 0 num_data (replicate (nat num_data) 0) of
              Inl e \<Rightarrow> Inl e
            | Inr gains \<Rightarrow>
                cutoff_pass (acc_gains (static_discount st) (rev (sort gains))) ks num_data 0 0 0 out))"

text \<open>
  \<open>std::stable_sort\<close> of the indices \<open>0 .. num_data - 1\<close> with the comparison
  \<open>score[a] > score[b]\<close>: ascending in \<open>- score[a]\<close>, equal scores in their original order
  (\<open>sort_key\<close> is a stable insertion sort). Sorting two or more indices reads the score of
  each of them.
\<close>

definition CalDCG ::
  "calculator \<Rightarrow> int list \<Rightarrow> real list \<Rightarrow> real list \<Rightarrow> real list \<Rightarrow> real list \<Rightarrow> int \<Rightarrow> real list
     \<Rightarrow> error + real list" where
  "CalDCG st ks label score theta1 theta2 num_data out =
     (if num_data < 0 then Inl Bad_Alloc
      else if 2 \<le> num_data \<and> int (length score) < num_data then Inl Out_Of_Range
      else (let sorted_idx = sort_key (\<lambda>a. - (score ! nat a)) [0 .. num_data - 1] in
            cutoff_pass (acc_dcg (static_discount st) label theta1 theta2 sorted_idx)
              ks num_data 0 0 0 out))"

text \<open>
  \<open>a - b\<close> on \<open>data_size_t\<close>: the difference is reduced to the 32-bit two's
  complement range.
\<close>

definition sub_int32 :: "int \<Rightarrow> int \<Rightarrow> int" where
  "sub_int32 a b = (a - b + 2 ^ 31) mod 2 ^ 32 - 2 ^ 31"

text \<open>
  The loop of \<open>CheckMetadata\<close> over the queries, with
  \<open>num_rows = query_boundaries[i + 1] - query_boundaries[i]\<close>.
\<close>

function check_rows :: "int list \<Rightarrow> int \<Rightarrow> int \<Rightarrow> error + unit" where
  "check_rows qb i num_queries =
     (if i < num_queries then
        (case rd qb (i + 1) of Inl e \<Rightarrow> Inl e | Inr hi \<Rightarrow>
        (case rd qb i of Inl e \<Rightarrow> Inl e | Inr lo \<Rightarrow>
           if sub_int32 hi lo > kMaxPosition then Inl Fatal
           else check_rows qb (i + 1) num_queries))
      else Inr ())"
  by pat_completeness auto
termination
  by (relation "measure (\<lambda>(qb, i, num_queries). nat (num_queries - i))") auto

definition CheckMetadata :: "metadata \<Rightarrow> int \<Rightarrow> error + unit" where
  "CheckMetadata md num_queries =
     (case query_boundaries md of
        None \<Rightarrow> Inr ()
      | Some qb \<Rightarrow> if num_queries > 0 then check_rows qb 0 num_queries else Inr ())"

text \<open>
  The loop of \<open>CheckLabel\<close>. The constant \<open>kEpsilon\<close> is declared outside this file and is
  a parameter here.
\<close>

function check_labels :: "real list \<Rightarrow> real \<Rightarrow> real list \<Rightarrow> int \<Rightarrow> int \<Rightarrow> error + unit" where
  "check_labels label_gain kEpsilon label i num_data =
     (if i < num_data then
        (case rd label i of Inl e \<Rightarrow> Inl e | Inr l \<Rightarrow>
           if \<bar>l - real_of_int (to_int l)\<bar> > kEpsilon then Inl Fatal
           else if l < 0 then Inl Fatal
           else if nat (to_int l) \<ge> length label_gain then Inl Fatal
           else check_labels label_gain kEpsilon label (i + 1) num_data)
      else Inr ())"
  by pat_completeness auto
termination
  by (relation "measure (\<lambda>(label_gain, kEpsilon, label, i, num_data). nat (num_data - i))") auto

definition CheckLabel :: "calculator \<Rightarrow> real \<Rightarrow> real list \<Rightarrow> int \<Rightarrow> error + unit" where
  "CheckLabel st kEpsilon label num_data =
     check_labels (static_label_gain st) kEpsilon label 0 num_data"

text \<open>
  The value the specification describes for \<open>MaxDCGAtK\<close>, from its words: the gains of all
  items sorted in descending order, the cutoff clamped to their number, and the sum of
  \<open>discount[j] * sortedGains[j]\<close> over \<open>j\<close> in \<open>[0, k)\<close>.
\<close>

definition MaxDCGAtK_spec :: "real list \<Rightarrow> real list \<Rightarrow> int \<Rightarrow> real" where
  "MaxDCGAtK_spec discount gains k =
     (let sortedGains = rev (sort gains);
          n = int (length gains);
          k' = (if k > n then n else k)
      in \<Sum>j = 0..<nat k'. discount ! j * sortedGains ! j)"

section \<open>Auxiliary facts\<close>

declare fill_discount.simps [simp del] fill_label_gain.simps [simp del]
  fill_gains.simps [simp del] acc_gains.simps [simp del] acc_dcg.simps [simp del]
  cutoff_pass.simps [simp del] check_rows.simps [simp del] check_labels.simps [simp del]

lemma rd_in_range: "0 \<le> i \<Longrightarrow> i < int (length xs) \<Longrightarrow> rd xs i = Inr (xs ! nat i)"
  by (simp add: rd_def)

lemma replicate_numeral: "replicate (numeral k) x = x # replicate (pred_numeral k) x"
  by (simp add: numeral_eq_Suc)

lemma ex_from_next:
  fixes i :: int
  assumes "\<not> P i"
  shows "(\<exists>j. i \<le> j \<and> P j) \<longleftrightarrow> (\<exists>j. i + 1 \<le> j \<and> P j)"
proof
  assume "\<exists>j. i \<le> j \<and> P j"
  then obtain j where j: "i \<le> j" "P j" by blast
  with assms have "j \<noteq> i" by auto
  with j have "i + 1 \<le> j" by simp
  with j show "\<exists>j. i + 1 \<le> j \<and> P j" by blast
next
  assume "\<exists>j. i + 1 \<le> j \<and> P j"
  then obtain j where "i + 1 \<le> j" "P j" by blast
  then have "i \<le> j \<and> P j" by simp
  then show "\<exists>j. i \<le> j \<and> P j" by blast
qed

lemma shl_int32_one: "0 \<le> l \<Longrightarrow> l \<le> 30 \<Longrightarrow> shl_int32 1 l = Inr (2 ^ nat l)"
proof -
  assume l: "0 \<le> l" "l \<le> 30"
  then have "nat l < 31" by simp
  then have "(2::int) ^ nat l < 2 ^ 31"
    by (rule power_strict_increasing) simp
  with l show ?thesis
    by (simp add: shl_int32_def push_bit_eq_mult)
qed

subsection \<open>The tables built by \<open>Init\<close>\<close>

lemma length_fill_discount: "length (fill_discount i d) = length d"
  by (induction i d rule: fill_discount.induct) (subst fill_discount.simps, simp)

lemma nth_fill_discount:
  "0 \<le> i \<Longrightarrow> j < length d \<Longrightarrow>
   fill_discount i d ! j =
     (if nat i \<le> j \<and> int j < kMaxPosition then 1 / log 2 (2 + real j) else d ! j)"
proof (induction i d rule: fill_discount.induct)
  case (1 i d)
  show ?case
  proof (cases "i < kMaxPosition")
    case True
    have "fill_discount i d ! j = fill_discount (i + 1) (d[nat i := 1 / log 2 (2 + real_of_int i)]) ! j"
      using True by (subst fill_discount.simps) simp
    also have "\<dots> = (if nat (i + 1) \<le> j \<and> int j < kMaxPosition then 1 / log 2 (2 + real j)
                      else d[nat i := 1 / log 2 (2 + real_of_int i)] ! j)"
      using "1.IH" [OF True] "1.prems" by simp
    finally show ?thesis
      using "1.prems" True
      by (cases "j = nat i") (auto simp: nth_list_update nat_add_distrib)
  next
    case False
    then show ?thesis using "1.prems" by (subst fill_discount.simps) auto
  qed
qed

lemma length_fill_label_gain: "length (fill_label_gain input i lg) = length lg"
  by (induction input i lg rule: fill_label_gain.induct) (subst fill_label_gain.simps, simp)

lemma nth_fill_label_gain:
  "j < length lg \<Longrightarrow>
   fill_label_gain input i lg ! j = (if i \<le> j \<and> j < length input then input ! j else lg ! j)"
proof (induction input i lg rule: fill_label_gain.induct)
  case (1 input i lg)
  show ?case
  proof (cases "i < length input")
    case True
    have "fill_label_gain input i lg ! j = fill_label_gain input (i + 1) (lg[i := input ! i]) ! j"
      using True by (subst fill_label_gain.simps) simp
    also have "\<dots> = (if i + 1 \<le> j \<and> j < length input then input ! j else lg[i := input ! i] ! j)"
      using "1.IH" [OF True] "1.prems" by simp
    finally show ?thesis
      using "1.prems" True
      by (cases "j = i") (auto simp: nth_list_update)
  next
    case False
    then show ?thesis using "1.prems" by (subst fill_label_gain.simps) auto
  qed
qed

lemma length_resize: "length (resize xs n) = n"
  by (simp add: resize_def)

lemma Init_label_gain: "static_label_gain (Init lg st) = lg"
  by (rule nth_equalityI)
    (simp_all add: Init_def length_fill_label_gain length_resize nth_fill_label_gain)

lemma length_Init_discount: "length (static_discount (Init lg st)) = 10000"
  by (simp add: Init_def length_fill_discount length_resize kMaxPosition_def)

lemma nth_Init_discount:
  "i < 10000 \<Longrightarrow> static_discount (Init lg st) ! i = 1 / log 2 (2 + real i)"
  by (simp add: Init_def nth_fill_discount length_resize kMaxPosition_def)

lemma Init_discount_same:
  "static_discount (Init lg1 st1) = static_discount (Init lg2 st2)"
  by (rule nth_equalityI) (simp_all add: length_Init_discount nth_Init_discount)

lemma discount_decreasing:
  fixes i j :: nat
  assumes "i < j"
  shows "1 / log 2 (2 + real j) < 1 / log 2 (2 + real i)"
proof -
  have pos: "0 < log 2 (2 + real i)"
    by (simp add: zero_less_log_cancel_iff)
  have "log 2 (2 + real i) < log 2 (2 + real j)"
    using assms by (simp add: log_less_cancel_iff)
  with pos show ?thesis
    by (simp add: frac_less2)
qed

subsection \<open>The loops of the validators\<close>

lemma sub_int32_exact:
  "0 \<le> a \<Longrightarrow> a < 2 ^ 31 \<Longrightarrow> 0 \<le> b \<Longrightarrow> b < 2 ^ 31 \<Longrightarrow> sub_int32 a b = a - b"
  by (simp add: sub_int32_def)

lemma check_rows_eq:
  "0 \<le> i \<Longrightarrow> n + 1 \<le> int (length qb) \<Longrightarrow>
   check_rows qb i n =
     (if \<exists>j. i \<le> j \<and> j < n \<and> sub_int32 (qb ! nat (j + 1)) (qb ! nat j) > kMaxPosition
      then Inl Fatal else Inr ())"
proof (induction qb i n rule: check_rows.induct)
  case (1 qb i n)
  show ?case
  proof (cases "i < n")
    case False
    then show ?thesis by (subst check_rows.simps) auto
  next
    case True
    with "1.prems" have hi: "rd qb (i + 1) = Inr (qb ! nat (i + 1))"
      and lo: "rd qb i = Inr (qb ! nat i)"
      by (simp_all add: rd_in_range)
    show ?thesis
    proof (cases "sub_int32 (qb ! nat (i + 1)) (qb ! nat i) > kMaxPosition")
      case big: True
      have "check_rows qb i n = Inl Fatal"
        using True hi lo big by (subst check_rows.simps) simp
      moreover have "\<exists>j. i \<le> j \<and> j < n \<and> sub_int32 (qb ! nat (j + 1)) (qb ! nat j) > kMaxPosition"
        using True big by (intro exI [of _ i]) simp
      ultimately show ?thesis by simp
    next
      case small: False
      have step: "check_rows qb i n = check_rows qb (i + 1) n"
        using True hi lo small by (subst check_rows.simps) simp
      have ih: "check_rows qb (i + 1) n =
          (if \<exists>j. i + 1 \<le> j \<and> j < n \<and> sub_int32 (qb ! nat (j + 1)) (qb ! nat j) > kMaxPosition
           then Inl Fatal else Inr ())"
        using "1.IH" [OF True hi lo small] "1.prems" by simp
      have "(\<exists>j. i \<le> j \<and> j < n \<and> sub_int32 (qb ! nat (j + 1)) (qb ! nat j) > kMaxPosition) \<longleftrightarrow>
            (\<exists>j. i + 1 \<le> j \<and> j < n \<and> sub_int32 (qb ! nat (j + 1)) (qb ! nat j) > kMaxPosition)"
        using small by (intro ex_from_next) simp
      with step ih show ?thesis by simp
    qed
  qed
qed

lemma check_labels_eq:
  "0 \<le> i \<Longrightarrow> n \<le> int (length label) \<Longrightarrow>
   check_labels lg eps label i n =
     (if \<exists>j. i \<le> j \<and> j < n \<and>
           (\<bar>label ! nat j - real_of_int (to_int (label ! nat j))\<bar> > eps \<or> label ! nat j < 0 \<or>
            length lg \<le> nat (to_int (label ! nat j)))
      then Inl Fatal else Inr ())"
proof (induction lg eps label i n rule: check_labels.induct)
  case (1 lg eps label i n)
  let ?bad = "\<lambda>j. j < n \<and>
           (\<bar>label ! nat j - real_of_int (to_int (label ! nat j))\<bar> > eps \<or> label ! nat j < 0 \<or>
            length lg \<le> nat (to_int (label ! nat j)))"
  show ?case
  proof (cases "i < n")
    case False
    then show ?thesis by (subst check_labels.simps) auto
  next
    case True
    with "1.prems" have l: "rd label i = Inr (label ! nat i)"
      by (simp add: rd_in_range)
    show ?thesis
    proof (cases "?bad i")
      case bad: True
      have "check_labels lg eps label i n = Inl Fatal"
        using True l bad by (subst check_labels.simps) auto
      moreover have "\<exists>j. i \<le> j \<and> ?bad j"
        using bad by (intro exI [of _ i]) simp
      ultimately show ?thesis by simp
    next
      case ok: False
      with True have ok':
        "\<not> eps < \<bar>label ! nat i - real_of_int (to_int (label ! nat i))\<bar>"
        "\<not> label ! nat i < 0"
        "\<not> length lg \<le> nat (to_int (label ! nat i))"
        by simp_all
      have step: "check_labels lg eps label i n = check_labels lg eps label (i + 1) n"
        using True l ok' by (subst check_labels.simps) simp
      have ih: "check_labels lg eps label (i + 1) n =
          (if \<exists>j. i + 1 \<le> j \<and> ?bad j then Inl Fatal else Inr ())"
        using "1.IH" [OF True l ok'] "1.prems" by simp
      have "(\<exists>j. i \<le> j \<and> ?bad j) \<longleftrightarrow> (\<exists>j. i + 1 \<le> j \<and> ?bad j)"
        using ok by (rule ex_from_next)
      with step ih show ?thesis by simp
    qed
  qed
qed

lemma to_int_size:
  assumes "0 \<le> x"
  shows "n \<le> nat (to_int x) \<longleftrightarrow> real n \<le> x"
proof -
  have "n \<le> nat \<lfloor>x\<rfloor> \<longleftrightarrow> int n \<le> \<lfloor>x\<rfloor>"
    using assms by (simp add: le_nat_iff)
  also have "\<dots> \<longleftrightarrow> real n \<le> x"
    by (simp add: le_floor_iff)
  finally show ?thesis using assms by (simp add: to_int_def)
qed

lemma to_int_integer: "x \<in> \<int> \<Longrightarrow> real_of_int (to_int x) = x"
  by (auto simp: to_int_def elim!: Ints_cases)

subsection \<open>The loops of the engines\<close>

lemma acc_gains_sum:
  "0 \<le> j \<Longrightarrow> k \<le> int (length discount) \<Longrightarrow> k \<le> int (length gains) \<Longrightarrow>
   acc_gains discount gains j k ret =
     Inr (ret + (\<Sum>t = nat j..<nat k. discount ! t * gains ! t))"
proof (induction discount gains j k ret rule: acc_gains.induct)
  case (1 discount gains j k ret)
  show ?case
  proof (cases "j < k")
    case False
    then show ?thesis by (subst acc_gains.simps) simp
  next
    case True
    with "1.prems" have d: "rd discount j = Inr (discount ! nat j)"
      and g: "rd gains j = Inr (gains ! nat j)"
      by (simp_all add: rd_in_range)
    have "acc_gains discount gains j k ret =
        acc_gains discount gains (j + 1) k (ret + discount ! nat j * gains ! nat j)"
      using True d g by (subst acc_gains.simps) simp
    also have "\<dots> = Inr (ret + discount ! nat j * gains ! nat j +
        (\<Sum>t = nat (j + 1)..<nat k. discount ! t * gains ! t))"
      using "1.IH" [OF True d g] "1.prems" by simp
    also have "(\<Sum>t = nat j..<nat k. discount ! t * gains ! t) =
        discount ! nat j * gains ! nat j + (\<Sum>t = nat (j + 1)..<nat k. discount ! t * gains ! t)"
      using True "1.prems" by (simp add: sum.atLeast_Suc_lessThan nat_add_distrib)
    then have "ret + discount ! nat j * gains ! nat j +
        (\<Sum>t = nat (j + 1)..<nat k. discount ! t * gains ! t) =
        ret + (\<Sum>t = nat j..<nat k. discount ! t * gains ! t)"
      by simp
    finally show ?thesis .
  qed
qed

lemma fill_gains_all:
  "0 \<le> j \<Longrightarrow> j \<le> n \<Longrightarrow> n \<le> int (length label) \<Longrightarrow> n \<le> int (length theta1) \<Longrightarrow>
   n \<le> int (length theta2) \<Longrightarrow> length gains = nat n \<Longrightarrow> length gs = nat n \<Longrightarrow>
   (\<And>i. i < nat n \<Longrightarrow> CalGain (to_int (label ! i)) (theta1 ! i) (theta2 ! i) = Inr (gs ! i)) \<Longrightarrow>
   fill_gains label theta1 theta2 j n gains = Inr (take (nat j) gains @ drop (nat j) gs)"
proof (induction label theta1 theta2 j n gains rule: fill_gains.induct)
  case (1 label theta1 theta2 j n gains)
  show ?case
  proof (cases "j < n")
    case False
    with "1.prems" have "j = n" by simp
    with "1.prems" show ?thesis by (subst fill_gains.simps) simp
  next
    case True
    with "1.prems" have l: "rd label j = Inr (label ! nat j)"
      and t1: "rd theta1 j = Inr (theta1 ! nat j)"
      and t2: "rd theta2 j = Inr (theta2 ! nat j)"
      by (simp_all add: rd_in_range)
    from True "1.prems" have lt: "nat j < nat n" by simp
    then have g: "CalGain (to_int (label ! nat j)) (theta1 ! nat j) (theta2 ! nat j) = Inr (gs ! nat j)"
      by (rule "1.prems")
    have "fill_gains label theta1 theta2 j n gains =
        fill_gains label theta1 theta2 (j + 1) n (gains[nat j := gs ! nat j])"
      using True l t1 t2 g by (subst fill_gains.simps) simp
    also have "\<dots> = Inr (take (nat (j + 1)) (gains[nat j := gs ! nat j]) @ drop (nat (j + 1)) gs)"
      using True "1.prems" by (intro "1.IH" [OF True l t1 t2 g]) simp_all
    also have "take (nat (j + 1)) (gains[nat j := gs ! nat j]) = take (nat j) gains @ [gs ! nat j]"
      using lt "1.prems" by (simp add: nat_add_distrib take_Suc_conv_app_nth)
    also have "(take (nat j) gains @ [gs ! nat j]) @ drop (nat (j + 1)) gs =
        take (nat j) gains @ drop (nat j) gs"
      using lt "1.prems" by (simp add: nat_add_distrib Cons_nth_drop_Suc)
    finally show ?thesis .
  qed
qed

lemma fill_gains_out_of_range:
  "0 \<le> j \<Longrightarrow> j \<le> int (length label) \<Longrightarrow> int (length label) < n \<Longrightarrow>
   length theta1 = length label \<Longrightarrow> length theta2 = length label \<Longrightarrow>
   (\<And>i. i < length label \<Longrightarrow>
      \<exists>g. CalGain (to_int (label ! i)) (theta1 ! i) (theta2 ! i) = Inr g) \<Longrightarrow>
   fill_gains label theta1 theta2 j n gains = Inl Out_Of_Range"
proof (induction label theta1 theta2 j n gains rule: fill_gains.induct)
  case (1 label theta1 theta2 j n gains)
  from "1.prems" have jn: "j < n" by simp
  show ?case
  proof (cases "j < int (length label)")
    case False
    then have "rd label j = Inl Out_Of_Range" by (simp add: rd_def)
    with jn show ?thesis by (subst fill_gains.simps) simp
  next
    case True
    with "1.prems" have l: "rd label j = Inr (label ! nat j)"
      and t1: "rd theta1 j = Inr (theta1 ! nat j)"
      and t2: "rd theta2 j = Inr (theta2 ! nat j)"
      by (simp_all add: rd_in_range)
    from True "1.prems" have "nat j < length label" by simp
    then obtain g where
      g: "CalGain (to_int (label ! nat j)) (theta1 ! nat j) (theta2 ! nat j) = Inr g"
      using "1.prems" by blast
    have "fill_gains label theta1 theta2 j n gains =
        fill_gains label theta1 theta2 (j + 1) n (gains[nat j := g])"
      using jn l t1 t2 g by (subst fill_gains.simps) simp
    also have "\<dots> = Inl Out_Of_Range"
      using True "1.prems" by (intro "1.IH" [OF jn l t1 t2 g]) simp_all
    finally show ?thesis .
  qed
qed

lemma acc_dcg_sum:
  "0 \<le> j \<Longrightarrow> k \<le> int (length sorted_idx) \<Longrightarrow> k \<le> int (length discount) \<Longrightarrow>
   (\<And>t. t < nat k \<Longrightarrow> 0 \<le> sorted_idx ! t \<and> sorted_idx ! t < n) \<Longrightarrow>
   n \<le> int (length label) \<Longrightarrow> n \<le> int (length theta1) \<Longrightarrow> n \<le> int (length theta2) \<Longrightarrow>
   (\<And>i. i < nat n \<Longrightarrow> CalGain (to_int (label ! i)) (theta1 ! i) (theta2 ! i) = Inr (gs ! i)) \<Longrightarrow>
   acc_dcg discount label theta1 theta2 sorted_idx j k ret =
     Inr (ret + (\<Sum>t = nat j..<nat k. gs ! nat (sorted_idx ! t) * discount ! t))"
proof (induction discount label theta1 theta2 sorted_idx j k ret rule: acc_dcg.induct)
  case (1 discount label theta1 theta2 sorted_idx j k ret)
  show ?case
  proof (cases "j < k")
    case False
    then show ?thesis by (subst acc_dcg.simps) simp
  next
    case True
    let ?idx = "sorted_idx ! nat j"
    from True "1.prems" have "nat j < nat k" by simp
    then have idx: "0 \<le> ?idx \<and> ?idx < n" by (rule "1.prems")
    from True "1.prems" have s: "rd sorted_idx j = Inr ?idx"
      and d: "rd discount j = Inr (discount ! nat j)"
      by (simp_all add: rd_in_range)
    from idx "1.prems" have l: "rd label ?idx = Inr (label ! nat ?idx)"
      and t1: "rd theta1 ?idx = Inr (theta1 ! nat ?idx)"
      and t2: "rd theta2 ?idx = Inr (theta2 ! nat ?idx)"
      by (simp_all add: rd_in_range)
    from idx have "nat ?idx < nat n" by simp
    then have g: "CalGain (to_int (label ! nat ?idx)) (theta1 ! nat ?idx) (theta2 ! nat ?idx) =
        Inr (gs ! nat ?idx)"
      by (rule "1.prems")
    let ?w = "\<lambda>t. gs ! nat (sorted_idx ! t) * discount ! t"
    have "acc_dcg discount label theta1 theta2 sorted_idx j k ret =
        acc_dcg discount label theta1 theta2 sorted_idx (j + 1) k (ret + ?w (nat j))"
      using True s l t1 t2 g d by (subst acc_dcg.simps) simp
    also have "\<dots> = Inr (ret + ?w (nat j) + (\<Sum>t = nat (j + 1)..<nat k. ?w t))"
      using "1.prems" by (intro "1.IH" [OF True s l t1 t2 g d]) simp_all
    also have "(\<Sum>t = nat j..<nat k. ?w t) = ?w (nat j) + (\<Sum>t = nat (j + 1)..<nat k. ?w t)"
      using True "1.prems" by (simp add: sum.atLeast_Suc_lessThan nat_add_distrib)
    then have "ret + ?w (nat j) + (\<Sum>t = nat (j + 1)..<nat k. ?w t) =
        ret + (\<Sum>t = nat j..<nat k. ?w t)"
      by simp
    finally show ?thesis .
  qed
qed

lemma cutoff_pass_sums:
  "(\<And>l r c. 0 \<le> l \<Longrightarrow> l \<le> r \<Longrightarrow> r \<le> n \<Longrightarrow>
            inner l r c = Inr (c + (\<Sum>t = nat l..<nat r. w t))) \<Longrightarrow>
    0 \<le> cur_left \<Longrightarrow> cur_left \<le> n \<Longrightarrow> length out = length ks \<Longrightarrow>
    sorted (drop i ks) \<Longrightarrow> (\<forall>k\<in>set (drop i ks). cur_left \<le> k) \<Longrightarrow>
    cur_result = (\<Sum>t<nat cur_left. w t) \<Longrightarrow>
    cutoff_pass inner ks n i cur_result cur_left out =
      Inr (take i out @ map (\<lambda>k. \<Sum>t<nat (min k n). w t) (drop i ks))"
proof (induction inner ks n i cur_result cur_left out rule: cutoff_pass.induct)
  case (1 inner ks n i cur_result cur_left out)
  show ?case
  proof (cases "i < length ks")
    case False
    with "1.prems" show ?thesis by (subst cutoff_pass.simps) simp
  next
    case True
    define cur_k where "cur_k = (if ks ! i > n then n else ks ! i)"
    have cur_k: "cur_k = min (ks ! i) n"
      by (simp add: cur_k_def min_def)
    have dr: "drop i ks = ks ! i # drop (Suc i) ks"
      using True by (simp add: Cons_nth_drop_Suc)
    with "1.prems" have le: "cur_left \<le> ks ! i" by simp
    with "1.prems" have lk: "cur_left \<le> cur_k" and kn: "cur_k \<le> n" and k0: "0 \<le> cur_k"
      by (simp_all add: cur_k)
    define r where "r = (\<Sum>t<nat cur_k. w t)"
    have "inner cur_left cur_k cur_result = Inr (cur_result + (\<Sum>t = nat cur_left..<nat cur_k. w t))"
      using "1.prems" lk kn by (intro "1.prems"(1)) simp_all
    also have "cur_result + (\<Sum>t = nat cur_left..<nat cur_k. w t) = r"
      using "1.prems" lk sum.atLeastLessThan_concat [of 0 "nat cur_left" "nat cur_k" w]
      by (simp add: r_def lessThan_atLeast0)
    finally have step: "inner cur_left cur_k cur_result = Inr r" .
    have io: "i < length out" using True "1.prems" by simp
    have "cutoff_pass inner ks n i cur_result cur_left out =
        cutoff_pass inner ks n (i + 1) r cur_k (out[i := r])"
      using True step io by (subst cutoff_pass.simps) (simp add: cur_k_def)
    also have "\<dots> = Inr (take (i + 1) (out[i := r]) @
        map (\<lambda>k. \<Sum>t<nat (min k n). w t) (drop (i + 1) ks))"
    proof (rule "1.IH" [OF True cur_k_def step io])
      show "\<And>l r c. 0 \<le> l \<Longrightarrow> l \<le> r \<Longrightarrow> r \<le> n \<Longrightarrow>
            inner l r c = Inr (c + (\<Sum>t = nat l..<nat r. w t))"
        using "1.prems"(1) by blast
      show "0 \<le> cur_k" by (rule k0)
      show "cur_k \<le> n" by (rule kn)
      show "length (out[i := r]) = length ks" using "1.prems" by simp
      show "sorted (drop (i + 1) ks)" using "1.prems" dr by simp
      show "\<forall>k\<in>set (drop (i + 1) ks). cur_k \<le> k"
        using "1.prems" dr by (auto simp: cur_k)
      show "r = (\<Sum>t<nat cur_k. w t)" by (rule r_def)
    qed
    also have "take (i + 1) (out[i := r]) = take i out @ [r]"
      using io by (simp add: take_Suc_conv_app_nth)
    also have "(take i out @ [r]) @ map (\<lambda>k. \<Sum>t<nat (min k n). w t) (drop (i + 1) ks) =
        take i out @ map (\<lambda>k. \<Sum>t<nat (min k n). w t) (drop i ks)"
      by (simp add: dr r_def cur_k)
    finally show ?thesis .
  qed
qed

lemma MaxDCGAtK_spec_sum:
  "MaxDCGAtK_spec discount gains k =
     (\<Sum>t<nat (min k (int (length gains))). discount ! t * rev (sort gains) ! t)"
  by (simp add: MaxDCGAtK_spec_def Let_def min_def lessThan_atLeast0)

subsection \<open>Sums of gains under decreasing discounts\<close>

text \<open>
  Any \<open>m\<close> entries of a list sum to at most its \<open>m\<close> largest ones, and weights that
  decrease and stay non-negative preserve a bound on all prefix sums.
\<close>

lemma top_sum_bound:
  fixes s :: "real list"
  shows "sorted (rev s) \<Longrightarrow> A \<subseteq># mset s \<Longrightarrow> sum_mset A \<le> sum_list (take (size A) s)"
proof (induction s arbitrary: A)
  case Nil
  then show ?case by simp
next
  case (Cons x s)
  from Cons.prems have srt: "sorted (rev s)" and top: "\<forall>y\<in>set s. y \<le> x"
    by (simp_all add: sorted_append)
  show ?case
  proof (cases "A = {#}")
    case True
    then show ?thesis by simp
  next
    case False
    then obtain a where a: "a \<in># A" by auto
    define b where "b = (if x \<in># A then x else a)"
    have bA: "b \<in># A" using a by (simp add: b_def)
    have bx: "b \<le> x"
    proof (cases "x \<in># A")
      case True
      then show ?thesis by (simp add: b_def)
    next
      case False
      from Cons.prems(2) a have "a \<in># mset (x # s)"
        by (rule mset_subset_eqD)
      with False a have "a \<in> set s" by auto
      with top False show ?thesis by (simp add: b_def)
    qed
    define A' where "A' = A - {#b#}"
    have A: "A = add_mset b A'" using bA by (simp add: A'_def)
    have sub: "A' \<subseteq># mset s"
    proof (cases "x \<in># A")
      case True
      then have "b = x" by (simp add: b_def)
      with Cons.prems A show ?thesis by simp
    next
      case False
      with Cons.prems have "A \<subseteq># mset s"
        by (metis diff_single_trivial mset.simps(2) subset_eq_diff_conv add_mset_add_single)
      then show ?thesis
        unfolding A'_def by (meson diff_subset_eq_self subset_mset.order_trans)
    qed
    have "sum_mset A' \<le> sum_list (take (size A') s)"
      using srt sub by (rule Cons.IH)
    with bx show ?thesis by (simp add: A)
  qed
qed

lemma abel_bound:
  fixes d x s :: "nat \<Rightarrow> real"
  assumes mono: "\<And>t. Suc t < n \<Longrightarrow> d (Suc t) \<le> d t"
    and nonneg: "\<And>t. t < n \<Longrightarrow> 0 \<le> d t"
    and pre: "\<And>j. j \<le> n \<Longrightarrow> (\<Sum>t<j. x t) \<le> (\<Sum>t<j. s t)"
    and m: "m \<le> n"
  shows "(\<Sum>t<m. d t * x t) \<le> (\<Sum>t<m. d t * s t)"
proof -
  have key: "d j * ((\<Sum>t<Suc j. s t) - (\<Sum>t<Suc j. x t))
      \<le> (\<Sum>t<Suc j. d t * s t) - (\<Sum>t<Suc j. d t * x t)" if "Suc j \<le> n" for j
    using that
  proof (induction j)
    case 0
    then show ?case by (simp add: algebra_simps)
  next
    case (Suc j)
    let ?D = "(\<Sum>t<Suc j. s t) - (\<Sum>t<Suc j. x t)"
    have D0: "0 \<le> ?D" using pre [of "Suc j"] Suc.prems by simp
    have dd: "0 \<le> d j - d (Suc j)" using mono [of j] Suc.prems by simp
    have ih: "d j * ?D \<le> (\<Sum>t<Suc j. d t * s t) - (\<Sum>t<Suc j. d t * x t)"
      using Suc by simp
    have "d (Suc j) * ?D \<le> d j * ?D"
      using mult_nonneg_nonneg [OF dd D0] by (simp add: algebra_simps)
    with ih have "d (Suc j) * ?D \<le> (\<Sum>t<Suc j. d t * s t) - (\<Sum>t<Suc j. d t * x t)"
      by simp
    then show ?case by (simp add: algebra_simps)
  qed
  show ?thesis
  proof (cases m)
    case 0
    then show ?thesis by simp
  next
    case (Suc j)
    with m have j: "Suc j \<le> n" by simp
    have "0 \<le> d j * ((\<Sum>t<Suc j. s t) - (\<Sum>t<Suc j. x t))"
      using nonneg [of j] pre [of "Suc j"] j by (intro mult_nonneg_nonneg) simp_all
    with key [OF j] show ?thesis by (simp add: Suc)
  qed
qed

lemma sum_list_take_nth:
  fixes xs :: "real list"
  shows "j \<le> length xs \<Longrightarrow> sum_list (take j xs) = (\<Sum>t<j. xs ! t)"
  by (simp add: sum_list_sum_nth lessThan_atLeast0 min_def)

lemma gains_of_upto: "length gs = nat n \<Longrightarrow> map (\<lambda>a. gs ! nat a) [0..n - 1] = gs"
  by (rule nth_equalityI) simp_all

lemma dcg_prefix_le_ideal:
  fixes gs :: "real list"
  assumes gs: "length gs = nat n" and p: "mset p = mset [0..n - 1]" and j: "j \<le> nat n"
  shows "(\<Sum>t<j. gs ! nat (p ! t)) \<le> (\<Sum>t<j. rev (sort gs) ! t)"
proof -
  define xs where "xs = map (\<lambda>a. gs ! nat a) p"
  have "length p = length [0..n - 1]"
    using p by (rule mset_eq_length)
  then have len: "length xs = nat n"
    by (simp add: xs_def)
  have "mset xs = image_mset (\<lambda>a. gs ! nat a) (mset p)"
    unfolding xs_def by (rule mset_map)
  also have "\<dots> = image_mset (\<lambda>a. gs ! nat a) (mset [0..n - 1])"
    by (simp only: p)
  also have "\<dots> = mset (map (\<lambda>a. gs ! nat a) [0..n - 1])"
    by (rule mset_map [symmetric])
  finally have perm: "mset xs = mset gs"
    by (simp only: gains_of_upto [OF gs])
  have "mset xs = mset (take j xs) + mset (drop j xs)"
    by (simp only: mset_append [symmetric] append_take_drop_id)
  then have "mset (take j xs) \<subseteq># mset xs"
    by simp
  then have sub: "mset (take j xs) \<subseteq># mset (rev (sort gs))"
    by (simp add: perm)
  have "sum_mset (mset (take j xs)) \<le> sum_list (take (size (mset (take j xs))) (rev (sort gs)))"
    using sub by (intro top_sum_bound) simp
  moreover have "size (mset (take j xs)) = j"
    using j len by simp
  ultimately have "sum_list (take j xs) \<le> sum_list (take j (rev (sort gs)))"
    by (simp only: sum_mset_sum_list)
  moreover have "sum_list (take j xs) = (\<Sum>t<j. gs ! nat (p ! t))"
    using j len by (simp add: sum_list_take_nth xs_def)
  moreover have "sum_list (take j (rev (sort gs))) = (\<Sum>t<j. rev (sort gs) ! t)"
    using j gs by (simp add: sum_list_take_nth)
  ultimately show ?thesis by simp
qed

section \<open>The gain model\<close>

text \<open>From label 31 on, \<open>1 << l\<close> does not fit a 32-bit \<open>int\<close>.\<close>

lemma CalGain_overflow: "31 \<le> l \<Longrightarrow> CalGain l t1 t2 = Inl Shift_Overflow"
proof -
  assume l: "31 \<le> l"
  have "shl_int32 1 l = Inl Shift_Overflow"
  proof (cases "32 \<le> l")
    case True
    then show ?thesis by (simp add: shl_int32_def)
  next
    case False
    with l have "l = 31" by simp
    then show ?thesis by (simp add: shl_int32_def)
  qed
  with l show ?thesis by (simp add: CalGain_def)
qed

text \<open>
  Claim C5, as amended. For all \<open>theta1\<close> and \<open>theta2\<close>: the gain of label 0 is 0, of
  label 1 is \<open>1 / theta1\<close>, of label 2 is \<open>2 / (theta1 * theta2) + 1 / theta1\<close>, and of
  every label \<open>l\<close> with \<open>3 \<le> l \<le> 30\<close> it is \<open>2 ^ l - 1\<close>, whatever the thetas are.
  The bound 30 is the one of \<open>DefaultLabelGain\<close> (\<open>max_label = 31\<close>, "may overflow"):
  \<open>1 << l\<close> is computed in a 32-bit \<open>int\<close>.
\<close>

theorem CalGain_formula:
  "CalGain 0 t1 t2 = Inr 0 \<and>
   CalGain 1 t1 t2 = Inr (1 / t1) \<and>
   CalGain 2 t1 t2 = Inr (2 / (t1 * t2) + 1 / t1) \<and>
   (3 \<le> l \<and> l \<le> 30 \<longrightarrow> CalGain l t1 t2 = Inr (2 ^ nat l - 1))"
  by (simp add: CalGain_def shl_int32_one)

theorem CalGain_formula_witness:
  "CalGain 0 2 4 = Inr 0 \<and> CalGain 1 2 4 = Inr (1 / 2) \<and> CalGain 2 2 4 = Inr (3 / 4) \<and>
   (3::int) \<le> 5 \<and> (5::int) \<le> 30 \<and> CalGain 5 2 4 = Inr 31"
  using CalGain_formula [of 2 4 5] by simp

text \<open>
  Claim C5 as stated, for every label \<open>l \<ge> 3\<close>, fails at \<open>l = 32\<close>: \<open>2 ^ 32 - 1\<close> is not
  a value of a 32-bit \<open>int\<close>, and the shift by 32 is not defined on it.
\<close>

theorem CalGain_32_counterexample: "CalGain 32 1 1 \<noteq> Inr (2 ^ 32 - 1)"
  by (simp add: CalGain_def shl_int32_def)

section \<open>The discount table\<close>

text \<open>
  Claim C8. After \<open>Init\<close> the discount table has exactly 10000 entries,
  \<open>discount[i] = 1 / log2 (2 + i)\<close> for every \<open>i\<close> in \<open>[0, 10000)\<close>; \<open>discount[0] = 1\<close>
  and the entries are strictly decreasing in \<open>i\<close>.
\<close>

theorem Init_discount_table:
  "length (static_discount (Init lg st)) = 10000 \<and>
   (\<forall>i<10000. static_discount (Init lg st) ! i = 1 / log 2 (2 + real i)) \<and>
   static_discount (Init lg st) ! 0 = 1 \<and>
   (\<forall>i j. i < j \<and> j < 10000 \<longrightarrow>
      static_discount (Init lg st) ! j < static_discount (Init lg st) ! i)"
proof (intro conjI allI impI)
  show "length (static_discount (Init lg st)) = 10000"
    by (rule length_Init_discount)
  show "static_discount (Init lg st) ! i = 1 / log 2 (2 + real i)" if "i < 10000" for i
    using that by (rule nth_Init_discount)
  show "static_discount (Init lg st) ! 0 = 1"
    by (simp add: nth_Init_discount)
  show "static_discount (Init lg st) ! j < static_discount (Init lg st) ! i"
    if "i < j \<and> j < 10000" for i j
    using that by (simp add: nth_Init_discount discount_decreasing)
qed

theorem Init_discount_table_witness:
  "(1::nat) < 2 \<and> (2::nat) < 10000 \<and>
   static_discount (Init [0, 1, 3] \<lparr>static_label_gain = [], static_discount = []\<rparr>) ! 2 = 1 / 2 \<and>
   static_discount (Init [0, 1, 3] \<lparr>static_label_gain = [], static_discount = []\<rparr>) ! 2
     < static_discount (Init [0, 1, 3] \<lparr>static_label_gain = [], static_discount = []\<rparr>) ! 1"
proof -
  let ?d = "static_discount (Init [0, 1, 3] \<lparr>static_label_gain = [], static_discount = []\<rparr>)"
  note t = Init_discount_table [of "[0, 1, 3]" "\<lparr>static_label_gain = [], static_discount = []\<rparr>"]
  from t have "?d ! 2 = 1 / log 2 (2 + real 2)" by simp
  moreover have "log 2 (2 + real 2) = 2"
    using log_nat_power [of 2 2 2] by simp
  ultimately have "?d ! 2 = 1 / 2" by simp
  moreover from t have "(1::nat) < 2 \<and> (2::nat) < 10000 \<longrightarrow> ?d ! 2 < ?d ! 1" by blast
  ultimately show ?thesis by simp
qed

section \<open>The validators\<close>

text \<open>
  Claim C6. \<open>CheckLabel(labels, n)\<close> fails fatally if and only if some label in
  \<open>labels[0..n)\<close> differs from its integer part by more than \<open>kEpsilon\<close>, or is negative,
  or is greater than or equal to the size of the label-gain table; it has no other
  failure; and when \<open>kEpsilon\<close> is not negative and all \<open>n\<close> labels are integer-valued,
  non-negative and less than the table size, it succeeds. The function returns nothing
  and takes the tables as a value, so it changes no state.
\<close>

theorem CheckLabel_fatal_iff:
  assumes "num_data \<le> int (length label)"
  shows "(CheckLabel st kEpsilon label num_data = Inl Fatal \<longleftrightarrow>
            (\<exists>i. 0 \<le> i \<and> i < num_data \<and>
               (\<bar>label ! nat i - real_of_int (to_int (label ! nat i))\<bar> > kEpsilon \<or>
                label ! nat i < 0 \<or>
                real (length (static_label_gain st)) \<le> label ! nat i))) \<and>
         (CheckLabel st kEpsilon label num_data \<noteq> Inl Fatal \<longrightarrow>
            CheckLabel st kEpsilon label num_data = Inr ()) \<and>
         (0 \<le> kEpsilon \<and>
          (\<forall>i. 0 \<le> i \<and> i < num_data \<longrightarrow>
             label ! nat i \<in> \<int> \<and> 0 \<le> label ! nat i \<and>
             label ! nat i < real (length (static_label_gain st))) \<longrightarrow>
            CheckLabel st kEpsilon label num_data = Inr ())"
proof -
  let ?lg = "static_label_gain st"
  let ?code = "\<lambda>j. j < num_data \<and>
      (\<bar>label ! nat j - real_of_int (to_int (label ! nat j))\<bar> > kEpsilon \<or> label ! nat j < 0 \<or>
       length ?lg \<le> nat (to_int (label ! nat j)))"
  let ?spec = "\<lambda>j. j < num_data \<and>
      (\<bar>label ! nat j - real_of_int (to_int (label ! nat j))\<bar> > kEpsilon \<or> label ! nat j < 0 \<or>
       real (length ?lg) \<le> label ! nat j)"
  have same: "?code j \<longleftrightarrow> ?spec j" for j
    using to_int_size [of "label ! nat j" "length ?lg"] by (cases "label ! nat j < 0") auto
  have eq: "CheckLabel st kEpsilon label num_data =
      (if \<exists>j. 0 \<le> j \<and> ?spec j then Inl Fatal else Inr ())"
    unfolding CheckLabel_def using check_labels_eq [OF order_refl assms, of ?lg kEpsilon]
    by (simp only: same)
  have good: "\<not> (\<exists>j. 0 \<le> j \<and> ?spec j)"
    if "0 \<le> kEpsilon" and
      "\<forall>i. 0 \<le> i \<and> i < num_data \<longrightarrow>
         label ! nat i \<in> \<int> \<and> 0 \<le> label ! nat i \<and> label ! nat i < real (length ?lg)"
    using that by (auto simp: to_int_integer)
  show ?thesis
  proof (intro conjI impI)
    show "CheckLabel st kEpsilon label num_data = Inl Fatal \<longleftrightarrow> (\<exists>i. 0 \<le> i \<and> ?spec i)"
      by (simp add: eq)
    show "CheckLabel st kEpsilon label num_data = Inr ()"
      if "CheckLabel st kEpsilon label num_data \<noteq> Inl Fatal"
      using that by (simp add: eq split: if_splits)
    show "CheckLabel st kEpsilon label num_data = Inr ()"
      if "0 \<le> kEpsilon \<and>
          (\<forall>i. 0 \<le> i \<and> i < num_data \<longrightarrow>
             label ! nat i \<in> \<int> \<and> 0 \<le> label ! nat i \<and> label ! nat i < real (length ?lg))"
    proof -
      from that have "\<not> (\<exists>j. 0 \<le> j \<and> ?spec j)"
        by (intro good) blast+
      then show ?thesis by (simp only: eq if_False)
    qed
  qed
qed

theorem CheckLabel_fatal_iff_witness:
  "(3::int) \<le> int (length [0, 2, 1 :: real]) \<and>
   CheckLabel (Init [0, 1, 3] \<lparr>static_label_gain = [], static_discount = []\<rparr>)
     (1 / 10 ^ 15) [0, 2, 1] 3 = Inr () \<and>
   CheckLabel (Init [0, 1, 3] \<lparr>static_label_gain = [], static_discount = []\<rparr>)
     (1 / 10 ^ 15) [0, 5 / 2, 1] 3 = Inl Fatal"
proof -
  let ?st = "Init [0, 1, 3] \<lparr>static_label_gain = [], static_discount = []\<rparr>"
  have len: "(3::int) \<le> int (length [0, 2, 1 :: real])" by simp
  have "\<forall>i. 0 \<le> i \<and> i < 3 \<longrightarrow>
          [0, 2, 1 :: real] ! nat i \<in> \<int> \<and> 0 \<le> [0, 2, 1 :: real] ! nat i \<and>
          [0, 2, 1 :: real] ! nat i < real (length (static_label_gain ?st))"
  proof (intro allI impI)
    fix i :: int
    assume "0 \<le> i \<and> i < 3"
    then have "i = 0 \<or> i = 1 \<or> i = 2" by arith
    then show "[0, 2, 1 :: real] ! nat i \<in> \<int> \<and> 0 \<le> [0, 2, 1 :: real] ! nat i \<and>
          [0, 2, 1 :: real] ! nat i < real (length (static_label_gain ?st))"
      by (elim disjE) (simp_all add: Init_label_gain)
  qed
  note all_ok = this
  have ok: "CheckLabel ?st (1 / 10 ^ 15) [0, 2, 1] 3 = Inr ()"
  proof (rule CheckLabel_fatal_iff [OF len, of ?st "1 / 10 ^ 15",
        THEN conjunct2, THEN conjunct2, THEN mp], intro conjI)
    show "(0::real) \<le> 1 / 10 ^ 15" by simp
    show "\<forall>i. 0 \<le> i \<and> i < 3 \<longrightarrow>
          [0, 2, 1 :: real] ! nat i \<in> \<int> \<and> 0 \<le> [0, 2, 1 :: real] ! nat i \<and>
          [0, 2, 1 :: real] ! nat i < real (length (static_label_gain ?st))"
      by (rule all_ok)
  qed
  have len': "(3::int) \<le> int (length [0, 5 / 2, 1 :: real])" by simp
  have half: "to_int (5 / 2) = 2"
    by (simp add: to_int_def)
  have bad: "CheckLabel ?st (1 / 10 ^ 15) [0, 5 / 2, 1] 3 = Inl Fatal"
  proof (rule CheckLabel_fatal_iff [OF len', of ?st "1 / 10 ^ 15", THEN conjunct1, THEN iffD2],
      intro exI [of _ 1] conjI disjI1)
    show "(0::int) \<le> 1" and "(1::int) < 3" by simp_all
    show "1 / 10 ^ 15 < \<bar>[0, 5 / 2, 1 :: real] ! nat 1 - real_of_int (to_int ([0, 5 / 2, 1] ! nat 1))\<bar>"
      by (simp add: half)
  qed
  from len ok bad show ?thesis by (intro conjI)
qed

lemma CheckMetadata_wraps:
  "CheckMetadata \<lparr>query_boundaries = Some [- 2147483648, 0]\<rparr> 1 = Inr ()"
  by (simp add: CheckMetadata_def check_rows.simps rd_def sub_int32_def kMaxPosition_def)

text \<open>
  Claim C7. \<open>CheckMetadata(metadata, numQueries)\<close> fails fatally when the item count
  \<open>query_boundaries[i + 1] - query_boundaries[i]\<close> of some query \<open>i\<close> in
  \<open>[0, numQueries)\<close> exceeds 10000, and succeeds otherwise. The boundary sequence, when
  there is one, has its \<open>numQueries + 1\<close> entries, each a non-negative 32-bit offset (in
  \<open>[0, 2^31)\<close>), so that the 32-bit difference is the item count.
\<close>

theorem CheckMetadata_fatal_iff:
  assumes "case query_boundaries md of
             None \<Rightarrow> True
           | Some qb \<Rightarrow> num_queries + 1 \<le> int (length qb) \<and>
                       (\<forall>b\<in>set qb. 0 \<le> b \<and> b < 2 ^ 31)"
  shows "CheckMetadata md num_queries =
     (if \<exists>qb i. query_boundaries md = Some qb \<and> 0 \<le> i \<and> i < num_queries \<and>
                 qb ! nat (i + 1) - qb ! nat i > 10000
      then Inl Fatal else Inr ())"
proof (cases "query_boundaries md")
  case None
  then show ?thesis by (simp add: CheckMetadata_def)
next
  case (Some qb)
  with assms have len: "num_queries + 1 \<le> int (length qb)"
    and rng: "\<forall>b\<in>set qb. 0 \<le> b \<and> b < 2 ^ 31"
    by simp_all
  have exact: "sub_int32 (qb ! nat (i + 1)) (qb ! nat i) = qb ! nat (i + 1) - qb ! nat i"
    if "0 \<le> i" "i < num_queries" for i
  proof -
    from that len have "nat (i + 1) < length qb" and "nat i < length qb"
      by simp_all
    then have "qb ! nat (i + 1) \<in> set qb" and "qb ! nat i \<in> set qb"
      by simp_all
    with rng show ?thesis
      by (intro sub_int32_exact) blast+
  qed
  have same: "(\<exists>i. 0 \<le> i \<and> i < num_queries \<and>
                 sub_int32 (qb ! nat (i + 1)) (qb ! nat i) > 10000) \<longleftrightarrow>
              (\<exists>i. 0 \<le> i \<and> i < num_queries \<and> qb ! nat (i + 1) - qb ! nat i > 10000)"
    using exact by auto
  show ?thesis
  proof (cases "num_queries > 0")
    case True
    have "CheckMetadata md num_queries =
        (if \<exists>i. 0 \<le> i \<and> i < num_queries \<and>
               sub_int32 (qb ! nat (i + 1)) (qb ! nat i) > 10000
         then Inl Fatal else Inr ())"
      using True check_rows_eq [OF order_refl len] Some
      by (simp add: CheckMetadata_def kMaxPosition_def)
    with Some show ?thesis
      by (simp only: same) simp
  next
    case False
    then have "\<not> (\<exists>i. 0 \<le> i \<and> i < num_queries \<and> qb ! nat (i + 1) - qb ! nat i > 10000)"
      by auto
    with False Some show ?thesis
      by (simp add: CheckMetadata_def)
  qed
qed

theorem CheckMetadata_fatal_iff_witness:
  "(case query_boundaries \<lparr>query_boundaries = Some [0, 3, 10004]\<rparr> of
      None \<Rightarrow> True
    | Some qb \<Rightarrow> (2::int) + 1 \<le> int (length qb) \<and> (\<forall>b\<in>set qb. 0 \<le> b \<and> b < 2 ^ 31)) \<and>
   CheckMetadata \<lparr>query_boundaries = Some [0, 3, 10004]\<rparr> 2 = Inl Fatal \<and>
   CheckMetadata \<lparr>query_boundaries = Some [0, 3, 10003]\<rparr> 2 = Inr ()"
proof -
  have h1: "case query_boundaries \<lparr>query_boundaries = Some [0, 3, 10004]\<rparr> of
              None \<Rightarrow> True
            | Some qb \<Rightarrow> (2::int) + 1 \<le> int (length qb) \<and>
                        (\<forall>b\<in>set qb. 0 \<le> b \<and> b < 2 ^ 31)"
    by simp
  have "\<exists>qb i. query_boundaries \<lparr>query_boundaries = Some [0, 3, 10004]\<rparr> = Some qb \<and>
          0 \<le> i \<and> i < 2 \<and> qb ! nat (i + 1) - qb ! nat i > 10000"
    by (intro exI [of _ "[0, 3, 10004]"] exI [of _ 1]) simp
  then have bad: "CheckMetadata \<lparr>query_boundaries = Some [0, 3, 10004]\<rparr> 2 = Inl Fatal"
    by (simp only: CheckMetadata_fatal_iff [OF h1] if_True)
  have h2: "case query_boundaries \<lparr>query_boundaries = Some [0, 3, 10003]\<rparr> of
              None \<Rightarrow> True
            | Some qb \<Rightarrow> (2::int) + 1 \<le> int (length qb) \<and>
                        (\<forall>b\<in>set qb. 0 \<le> b \<and> b < 2 ^ 31)"
    by simp
  have "\<not> (\<exists>qb i. query_boundaries \<lparr>query_boundaries = Some [0, 3, 10003]\<rparr> = Some qb \<and>
          0 \<le> i \<and> i < 2 \<and> qb ! nat (i + 1) - qb ! nat i > 10000)"
  proof
    assume "\<exists>qb i. query_boundaries \<lparr>query_boundaries = Some [0, 3, 10003]\<rparr> = Some qb \<and>
          0 \<le> i \<and> i < 2 \<and> qb ! nat (i + 1) - qb ! nat i > 10000"
    then obtain i :: int where i: "0 \<le> i" "i < 2"
      and big: "[0, 3, 10003 :: int] ! nat (i + 1) - [0, 3, 10003] ! nat i > 10000"
      by auto
    from i have "i = 0 \<or> i = 1" by arith
    with big show False by (elim disjE) simp_all
  qed
  then have "CheckMetadata \<lparr>query_boundaries = Some [0, 3, 10003]\<rparr> 2 = Inr ()"
    by (simp only: CheckMetadata_fatal_iff [OF h2] if_False)
  with h1 bad show ?thesis by (intro conjI)
qed

text \<open>
  Claim C10. \<open>CheckMetadata\<close> succeeds without looking at any query when
  \<open>numQueries\<close> is 0 or the metadata has no query boundaries (a null pointer): in the
  second case no query size is compared with the cap of 10000 positions, whatever
  \<open>numQueries\<close> is.
\<close>

theorem CheckMetadata_vacuous:
  "num_queries = 0 \<or> query_boundaries md = None \<Longrightarrow> CheckMetadata md num_queries = Inr ()"
  by (auto simp: CheckMetadata_def split: option.splits)

theorem CheckMetadata_vacuous_witness:
  "((7::int) = 0 \<or> query_boundaries \<lparr>query_boundaries = None\<rparr> = None) \<and>
   CheckMetadata \<lparr>query_boundaries = None\<rparr> 7 = Inr () \<and>
   ((0::int) = 0 \<or> query_boundaries \<lparr>query_boundaries = Some [0, 20000]\<rparr> = None) \<and>
   CheckMetadata \<lparr>query_boundaries = Some [0, 20000]\<rparr> 0 = Inr ()"
  using CheckMetadata_vacuous [of 7 "\<lparr>query_boundaries = None\<rparr>"]
    CheckMetadata_vacuous [of 0 "\<lparr>query_boundaries = Some [0, 20000]\<rparr>"]
  by simp

section \<open>The engines\<close>

text \<open>
  Claim C9. The label-gain table given to \<open>Init\<close> has no influence on a metric value:
  for any two tables (and any two earlier states), \<open>CalMaxDCGAtK\<close>, \<open>CalMaxDCG\<close> and
  \<open>CalDCG\<close> return the same result on the same labels, thetas, scores and cutoffs.
  Every gain comes from \<open>CalGain\<close>, which has no access to the table; the one reader of
  \<open>label_gain_\<close> is \<open>CheckLabel\<close>.
\<close>

theorem label_gain_table_unused:
  "CalMaxDCGAtK (Init lg1 st1) k label theta1 theta2 num_data =
     CalMaxDCGAtK (Init lg2 st2) k label theta1 theta2 num_data \<and>
   CalMaxDCG (Init lg1 st1) ks label theta1 theta2 num_data out =
     CalMaxDCG (Init lg2 st2) ks label theta1 theta2 num_data out \<and>
   CalDCG (Init lg1 st1) ks label score theta1 theta2 num_data out =
     CalDCG (Init lg2 st2) ks label score theta1 theta2 num_data out"
  unfolding CalMaxDCGAtK_def CalMaxDCG_def CalDCG_def
  by (simp only: Init_discount_same [of lg1 st1 lg2 st2])

text \<open>
  What the engines compute on well-formed input: \<open>num_data\<close> items whose gains \<open>gs\<close>
  are defined, a discount table that covers them, non-negative ascending cutoffs and an
  output vector with one entry per cutoff. \<open>CalMaxDCG\<close> returns the specified ideal value
  at every cutoff, clamped or not.
\<close>

lemma CalMaxDCG_computes_spec:
  assumes n: "0 \<le> num_data" "num_data \<le> int (length label)" "num_data \<le> int (length theta1)"
      "num_data \<le> int (length theta2)" "num_data \<le> int (length (static_discount st))"
    and gs: "length gs = nat num_data"
      "\<And>i. i < nat num_data \<Longrightarrow>
         CalGain (to_int (label ! i)) (theta1 ! i) (theta2 ! i) = Inr (gs ! i)"
    and ks: "sorted ks" "\<forall>k\<in>set ks. 0 \<le> k" "length out = length ks"
  shows "CalMaxDCG st ks label theta1 theta2 num_data out =
           Inr (map (MaxDCGAtK_spec (static_discount st) gs) ks)"
proof -
  let ?d = "static_discount st"
  let ?s = "rev (sort gs)"
  have fill: "fill_gains label theta1 theta2 0 num_data (replicate (nat num_data) 0) = Inr gs"
    using fill_gains_all [of 0 num_data label theta1 theta2 "replicate (nat num_data) 0" gs] n gs
    by simp
  have inner: "acc_gains ?d ?s l r c = Inr (c + (\<Sum>t = nat l..<nat r. ?d ! t * ?s ! t))"
    if "0 \<le> l" "l \<le> r" "r \<le> num_data" for l r c
    using that n gs by (intro acc_gains_sum) simp_all
  have "cutoff_pass (acc_gains ?d ?s) ks num_data 0 0 0 out =
      Inr (take 0 out @ map (\<lambda>k. \<Sum>t<nat (min k num_data). ?d ! t * ?s ! t) (drop 0 ks))"
    using inner n ks by (intro cutoff_pass_sums) simp_all
  also have "map (\<lambda>k. \<Sum>t<nat (min k num_data). ?d ! t * ?s ! t) (drop 0 ks) =
      map (MaxDCGAtK_spec ?d gs) ks"
    using n gs by (simp add: MaxDCGAtK_spec_sum)
  finally show ?thesis
    using n fill by (simp add: CalMaxDCG_def)
qed

text \<open>
  \<open>CalDCG\<close> returns, at every cutoff, the discounted gains in the order of the stably
  sorted scores.
\<close>

lemma CalDCG_computes:
  assumes n: "0 \<le> num_data" "num_data \<le> int (length label)" "num_data \<le> int (length score)"
      "num_data \<le> int (length theta1)" "num_data \<le> int (length theta2)"
      "num_data \<le> int (length (static_discount st))"
    and gs: "\<And>i. i < nat num_data \<Longrightarrow>
         CalGain (to_int (label ! i)) (theta1 ! i) (theta2 ! i) = Inr (gs ! i)"
    and ks: "sorted ks" "\<forall>k\<in>set ks. 0 \<le> k" "length out = length ks"
  shows "CalDCG st ks label score theta1 theta2 num_data out =
           Inr (map (\<lambda>k. \<Sum>t<nat (min k num_data).
                  gs ! nat (sort_key (\<lambda>a. - (score ! nat a)) [0..num_data - 1] ! t) *
                  static_discount st ! t) ks)"
proof -
  let ?d = "static_discount st"
  let ?p = "sort_key (\<lambda>a. - (score ! nat a)) [0..num_data - 1]"
  have len: "int (length ?p) = num_data"
    using n by simp
  have rng: "0 \<le> ?p ! t \<and> ?p ! t < num_data" if "t < nat r" "r \<le> num_data" for t r
  proof -
    from that len have "t < length ?p" by simp
    then have "?p ! t \<in> set ?p" by (rule nth_mem)
    then show ?thesis by simp
  qed
  have inner: "acc_dcg ?d label theta1 theta2 ?p l r c =
      Inr (c + (\<Sum>t = nat l..<nat r. gs ! nat (?p ! t) * ?d ! t))"
    if "0 \<le> l" "l \<le> r" "r \<le> num_data" for l r c
  proof (rule acc_dcg_sum [where n = num_data])
    show "0 \<le> l" by fact
    show "r \<le> int (length ?p)" using that len by simp
    show "r \<le> int (length ?d)" using that n by simp
    show "0 \<le> ?p ! t \<and> ?p ! t < num_data" if "t < nat r" for t
      using that \<open>r \<le> num_data\<close> by (rule rng)
    show "num_data \<le> int (length label)" "num_data \<le> int (length theta1)"
      "num_data \<le> int (length theta2)" by fact+
    show "CalGain (to_int (label ! i)) (theta1 ! i) (theta2 ! i) = Inr (gs ! i)"
      if "i < nat num_data" for i
      using that by (rule gs)
  qed
  have "cutoff_pass (acc_dcg ?d label theta1 theta2 ?p) ks num_data 0 0 0 out =
      Inr (take 0 out @
        map (\<lambda>k. \<Sum>t<nat (min k num_data). gs ! nat (?p ! t) * ?d ! t) (drop 0 ks))"
    using inner n ks by (intro cutoff_pass_sums) simp_all
  then show ?thesis
    using n by (simp add: CalDCG_def Let_def)
qed

text \<open>
  After \<open>Init\<close>, and for at most 10000 items, every entry of \<open>CalDCG\<close> is bounded by
  the entry of \<open>CalMaxDCG\<close> at the same cutoff.
\<close>

lemma CalDCG_le_CalMaxDCG:
  assumes n: "0 \<le> num_data" "num_data \<le> 10000" "num_data \<le> int (length label)"
      "num_data \<le> int (length score)" "num_data \<le> int (length theta1)"
      "num_data \<le> int (length theta2)"
    and gs: "length gs = nat num_data"
      "\<And>i. i < nat num_data \<Longrightarrow>
         CalGain (to_int (label ! i)) (theta1 ! i) (theta2 ! i) = Inr (gs ! i)"
    and ks: "sorted ks" "\<forall>k\<in>set ks. 0 \<le> k" "length out = length ks"
  shows "\<exists>ideal observed.
           CalMaxDCG (Init lg st) ks label theta1 theta2 num_data out = Inr ideal \<and>
           CalDCG (Init lg st) ks label score theta1 theta2 num_data out = Inr observed \<and>
           length ideal = length ks \<and> length observed = length ks \<and>
           (\<forall>i<length ks. observed ! i \<le> ideal ! i)"
proof -
  let ?st = "Init lg st"
  let ?d = "static_discount ?st"
  let ?p = "sort_key (\<lambda>a. - (score ! nat a)) [0..num_data - 1]"
  let ?obs = "\<lambda>k. \<Sum>t<nat (min k num_data). gs ! nat (?p ! t) * ?d ! t"
  have dlen: "num_data \<le> int (length ?d)"
    using n by (simp add: length_Init_discount)
  have ideal: "CalMaxDCG ?st ks label theta1 theta2 num_data out =
      Inr (map (MaxDCGAtK_spec ?d gs) ks)"
    using n dlen gs ks by (intro CalMaxDCG_computes_spec) simp_all
  have observed: "CalDCG ?st ks label score theta1 theta2 num_data out = Inr (map ?obs ks)"
    using n dlen gs ks by (intro CalDCG_computes) simp_all
  have le: "?obs k \<le> MaxDCGAtK_spec ?d gs k" for k
  proof -
    let ?m = "nat (min k num_data)"
    have m: "?m \<le> nat num_data" by simp
    have "(\<Sum>t<?m. ?d ! t * gs ! nat (?p ! t)) \<le> (\<Sum>t<?m. ?d ! t * rev (sort gs) ! t)"
    proof (rule abel_bound [where n = "nat num_data"])
      show "?d ! Suc t \<le> ?d ! t" if "Suc t < nat num_data" for t
      proof -
        from that n have "Suc t < 10000" by simp
        then show ?thesis
          using discount_decreasing [of t "Suc t"] by (simp add: nth_Init_discount)
      qed
      show "0 \<le> ?d ! t" if "t < nat num_data" for t
      proof -
        from that n have "t < 10000" by simp
        moreover have "0 \<le> log 2 (2 + real t)" by (simp add: zero_le_log_cancel_iff)
        ultimately show ?thesis by (simp add: nth_Init_discount)
      qed
      show "(\<Sum>t<j. gs ! nat (?p ! t)) \<le> (\<Sum>t<j. rev (sort gs) ! t)" if "j \<le> nat num_data" for j
        using gs(1) _ that by (rule dcg_prefix_le_ideal) simp
      show "?m \<le> nat num_data" by (rule m)
    qed
    moreover have "?obs k = (\<Sum>t<?m. ?d ! t * gs ! nat (?p ! t))"
      by (simp add: mult.commute)
    moreover have "MaxDCGAtK_spec ?d gs k = (\<Sum>t<?m. ?d ! t * rev (sort gs) ! t)"
      using gs(1) n by (simp add: MaxDCGAtK_spec_sum)
    ultimately show ?thesis by simp
  qed
  show ?thesis
    using ideal observed le by (intro exI [of _ "map (MaxDCGAtK_spec ?d gs) ks"]
        exI [of _ "map ?obs ks"]) simp
qed

text \<open>
  \<open>CalMaxDCGAtK\<close> with \<open>k\<close> within the arrays returns the specified ideal value of the
  first \<open>k\<close> items alone (\<open>gs\<close> are their \<open>k\<close> gains), cut at \<open>num_data\<close>; with \<open>k\<close>
  beyond arrays of exactly \<open>num_data\<close> entries it reads past their end.
\<close>

lemma CalMaxDCGAtK_computes:
  assumes k: "0 \<le> k" "k \<le> int (length label)" "k \<le> int (length theta1)"
      "k \<le> int (length theta2)" "k \<le> int (length (static_discount st))"
    and gs: "length gs = nat k"
      "\<And>i. i < nat k \<Longrightarrow>
         CalGain (to_int (label ! i)) (theta1 ! i) (theta2 ! i) = Inr (gs ! i)"
  shows "CalMaxDCGAtK st k label theta1 theta2 num_data =
           Inr (MaxDCGAtK_spec (static_discount st) gs num_data)"
proof -
  let ?d = "static_discount st"
  let ?s = "rev (sort gs)"
  let ?k = "if k > num_data then num_data else k"
  have fill: "fill_gains label theta1 theta2 0 k (replicate (nat k) 0) = Inr gs"
    using fill_gains_all [of 0 k label theta1 theta2 "replicate (nat k) 0" gs] k gs
    by simp
  have "acc_gains ?d ?s 0 ?k 0 = Inr (0 + (\<Sum>t = nat 0..<nat ?k. ?d ! t * ?s ! t))"
    using k gs by (intro acc_gains_sum) simp_all
  also have "0 + (\<Sum>t = nat 0..<nat ?k. ?d ! t * ?s ! t) = MaxDCGAtK_spec ?d gs num_data"
    using k gs by (simp add: MaxDCGAtK_spec_sum min_def lessThan_atLeast0)
  finally show ?thesis
    using k fill by (simp add: CalMaxDCGAtK_def)
qed

lemma CalMaxDCGAtK_out_of_range:
  assumes "int (length label) < k" "length theta1 = length label" "length theta2 = length label"
    and "\<And>i. i < length label \<Longrightarrow>
      \<exists>g. CalGain (to_int (label ! i)) (theta1 ! i) (theta2 ! i) = Inr g"
  shows "CalMaxDCGAtK st k label theta1 theta2 (int (length label)) = Inl Out_Of_Range"
proof -
  have "fill_gains label theta1 theta2 0 k (replicate (nat k) 0) = Inl Out_Of_Range"
    using assms by (intro fill_gains_out_of_range) simp_all
  with assms(1) show ?thesis by (simp add: CalMaxDCGAtK_def)
qed

text \<open>
  The two worked examples of the specification, where the cutoff equals the number of
  items: labels 0, 1, 2, 3 with all thetas 1, and the scores 10, 5, 20, 1.
\<close>

lemma log_2_4: "log 2 4 = 2"
  using log_nat_power [of 2 2 2] by simp

lemma worked_example_ideal:
  "CalMaxDCGAtK (Init [0, 1, 3, 7] \<lparr>static_label_gain = [], static_discount = []\<rparr>)
     4 [0, 1, 2, 3] [1, 1, 1, 1] [1, 1, 1, 1] 4 = Inr (7 + 3 / log 2 3 + 1 / 2)"
  by (simp add: CalMaxDCGAtK_def fill_gains.simps acc_gains.simps rd_def
      to_int_def CalGain_def shl_int32_def replicate_numeral length_Init_discount
      nth_Init_discount log_2_4)

lemma worked_example_observed:
  "CalDCG (Init [0, 1, 3, 7] \<lparr>static_label_gain = [], static_discount = []\<rparr>)
     [4] [0, 1, 2, 3] [10, 5, 20, 1] [1, 1, 1, 1] [1, 1, 1, 1] 4 [0] =
     Inr [3 + 1 / 2 + 7 / log 2 5]"
  by (simp add: CalDCG_def acc_dcg.simps cutoff_pass.simps rd_def
      to_int_def CalGain_def shl_int32_def length_Init_discount
      nth_Init_discount upto.simps log_2_4)

text \<open>
  Claim C1: \<open>MaxDCGAtK(k, items, n)\<close> computes the gain of every one of the \<open>n\<close> items,
  sorts all \<open>n\<close> gains in descending order, clamps \<open>k\<close> to \<open>n\<close> and returns the sum of
  \<open>discount[j] * sortedGains[j]\<close> over \<open>j\<close> in \<open>[0, k)\<close>. The code departs from it:
  the gain vector of \<open>CalMaxDCGAtK\<close> has \<open>k\<close> entries and is filled from the first \<open>k\<close>
  items, not from all \<open>num_data\<close> of them as in \<open>CalMaxDCG\<close>. With two items of labels 0
  and 3 and cutoff 1, only the first item is seen and the result is 0; the value the
  claim describes is \<open>discount[0] * 7 = 7\<close>.
\<close>

theorem CalMaxDCGAtK_sees_first_k_items:
  "CalMaxDCGAtK (Init [0, 1, 3, 7] \<lparr>static_label_gain = [], static_discount = []\<rparr>)
     1 [0, 3] [1, 1] [1, 1] 2 = Inr 0 \<and>
   MaxDCGAtK_spec
     (static_discount (Init [0, 1, 3, 7] \<lparr>static_label_gain = [], static_discount = []\<rparr>))
     [0, 7] 1 = 7"
  by (simp add: CalMaxDCGAtK_def MaxDCGAtK_spec_def fill_gains.simps acc_gains.simps rd_def
      to_int_def CalGain_def replicate_numeral length_Init_discount nth_Init_discount)

text \<open>
  Claim C2: for all items, scores and every cutoff \<open>k\<close>, \<open>MaxDCGAtK(k, items)\<close> is at
  least \<open>DCG([k], items with scores)[0]\<close>. The code departs from it, by the defect of
  C1: on the four items of labels 0, 1, 2, 3 (all thetas 1) with scores 10, 5, 20, 1 and
  cutoff 2, \<open>CalMaxDCGAtK\<close> ranks the first two items only and returns 1, while \<open>CalDCG\<close>
  returns 3, the gain of the item of label 2 that the scores put first.
\<close>

theorem CalMaxDCGAtK_below_CalDCG:
  "CalMaxDCGAtK (Init [0, 1, 3, 7] \<lparr>static_label_gain = [], static_discount = []\<rparr>)
     2 [0, 1, 2, 3] [1, 1, 1, 1] [1, 1, 1, 1] 4 = Inr 1 \<and>
   CalDCG (Init [0, 1, 3, 7] \<lparr>static_label_gain = [], static_discount = []\<rparr>)
     [2] [0, 1, 2, 3] [10, 5, 20, 1] [1, 1, 1, 1] [1, 1, 1, 1] 4 [0] = Inr [3]"
  by (simp add: CalMaxDCGAtK_def CalDCG_def fill_gains.simps acc_gains.simps acc_dcg.simps
      cutoff_pass.simps rd_def to_int_def CalGain_def shl_int32_def replicate_numeral
      length_Init_discount nth_Init_discount upto.simps)

text \<open>
  Claim C3: for strictly ascending cutoffs \<open>ks\<close>, \<open>MaxDCG(ks, items)[i]\<close> equals
  \<open>MaxDCGAtK(ks[i], items)\<close> for every \<open>i\<close>. The code departs from it, by the defect of
  C1: for the cutoffs 1, 2 and two items of labels 1 and 4 (thetas 2 and 1), \<open>CalMaxDCG\<close>
  reports 15 at cutoff 1, the gain of the second item, and \<open>CalMaxDCGAtK\<close> at cutoff 1
  reports \<open>1 / 2\<close>, the gain of the first.
\<close>

theorem CalMaxDCG_differs_from_CalMaxDCGAtK:
  "CalMaxDCG (Init [0, 1, 3, 7, 15] \<lparr>static_label_gain = [], static_discount = []\<rparr>)
     [1, 2] [1, 4] [2, 1] [1, 1] 2 [0, 0] = Inr [15, 15 + 1 / log 2 3 * (1 / 2)] \<and>
   CalMaxDCGAtK (Init [0, 1, 3, 7, 15] \<lparr>static_label_gain = [], static_discount = []\<rparr>)
     1 [1, 4] [2, 1] [1, 1] 2 = Inr (1 / 2)"
  by (simp add: CalMaxDCGAtK_def CalMaxDCG_def fill_gains.simps acc_gains.simps
      cutoff_pass.simps rd_def to_int_def CalGain_def shl_int32_def replicate_numeral
      length_Init_discount nth_Init_discount)

text \<open>
  Claim C4: for \<open>n\<close> items and a cutoff \<open>k > n\<close>, each of \<open>MaxDCGAtK\<close>, \<open>MaxDCG\<close> and
  \<open>DCG\<close> clamps the cutoff to \<open>n\<close> and reads no entry at an index \<open>\<ge> n\<close>. The code of
  \<open>CalMaxDCGAtK\<close> departs from it, by the defect of C1: with one item and cutoff 2 its
  first loop reads \<open>label[1]\<close>, past the end, before the cutoff is clamped. \<open>CalMaxDCG\<close>
  and \<open>CalDCG\<close> clamp first and return the gain 7 of the one item.
\<close>

theorem CalMaxDCGAtK_reads_past_num_data:
  "CalMaxDCGAtK (Init [0, 1, 3, 7] \<lparr>static_label_gain = [], static_discount = []\<rparr>)
     2 [3] [1] [1] 1 = Inl Out_Of_Range \<and>
   CalMaxDCG (Init [0, 1, 3, 7] \<lparr>static_label_gain = [], static_discount = []\<rparr>)
     [2] [3] [1] [1] 1 [0] = Inr [7] \<and>
   CalDCG (Init [0, 1, 3, 7] \<lparr>static_label_gain = [], static_discount = []\<rparr>)
     [2] [3] [5] [1] [1] 1 [0] = Inr [7]"
  by (simp add: CalMaxDCGAtK_def CalMaxDCG_def CalDCG_def fill_gains.simps acc_gains.simps
      acc_dcg.simps cutoff_pass.simps rd_def to_int_def CalGain_def shl_int32_def
      replicate_numeral length_Init_discount nth_Init_discount upto.simps)

end
